theory Spec2Isabelle
  imports Main
begin

section \<open>Shared values\<close>

text \<open>
  Payloads typed \<open>any\<close> in the TypeScript (workflow results, activity details, the
  data of a socket message) are carried as JSON-like values.
\<close>

datatype any = JNull | JBool bool | JNum int | JStr string | JArr "any list"
  | JObj "(string \<times> any) list"

text \<open>
  Template literals such as \<open>workflow_${Date.now()}\<close> render a number in decimal.
  \<open>Date.now()\<close> is a count of milliseconds, a natural number here.
\<close>

definition digit_char :: "nat \<Rightarrow> char" where
  "digit_char d = ''0123456789'' ! d"

function decimal :: "nat \<Rightarrow> string" where
  "decimal n = (if n < 10 then [digit_char n] else decimal (n div 10) @ [digit_char (n mod 10)])"
  by pat_completeness auto
termination
  by (relation "measure id") auto

declare decimal.simps [simp del]

section \<open>The client state store (agentStore)\<close>

datatype agent_status = AgentIdle | AgentRunning | AgentCompleted | AgentError

datatype workflow_status = WfPending | WfRunning | WfCompleted | WfError

datatype approval_status = Pending | Approved | Rejected

datatype risk_level = Low | Medium | High | Critical

text \<open>
  The interfaces \<open>Agent\<close>, \<open>Workflow\<close> and \<open>ApprovalRequest\<close>. An optional field
  (\<open>currentTask?: string\<close>) is an \<open>option\<close>; \<open>None\<close> is \<open>undefined\<close>. Field names
  carry a prefix where two interfaces share a name. Progress, cost and duration are
  numbers that the store only copies; they are integers here.
\<close>

record agent =
  agent_id :: string
  agent_name :: string
  agent_status :: agent_status
  agent_currentTask :: "string option"
  lastCompleted :: "string option"
  agent_error :: "string option"
  progress :: "int option"

record workflow =
  wf_id :: string
  wf_type :: string
  wf_status :: workflow_status
  startTime :: "string option"
  endTime :: "string option"
  steps :: "string list"
  currentStep :: "string option"
  results :: "any option"
  wf_error :: "string option"

text \<open>The argument of \<open>addApprovalRequest\<close>: an \<open>ApprovalRequest\<close> without id, timestamp and status.\<close>

record approval_input =
  actionType :: string
  description :: string
  riskLevel :: risk_level
  estimatedCost :: "int option"
  estimatedDuration :: "int option"
  agentInvolved :: "string option"

record approval_request = approval_input +
  ap_id :: string
  ap_status :: approval_status
  ap_timestamp :: string

record activity =
  act_id :: string
  act_agentId :: string
  act_action :: string
  act_timestamp :: string
  act_details :: "any option"

record store =
  agents :: "agent list"
  workflows :: "workflow list"
  activeWorkflow :: "workflow option"
  pendingApprovals :: "approval_request list"
  isExecuting :: bool
  currentTask :: "string option"
  activityLog :: "activity list"

definition mk_agent :: "string \<Rightarrow> string \<Rightarrow> agent" where
  "mk_agent i n = \<lparr>agent_id = i, agent_name = n, agent_status = AgentIdle,
     agent_currentTask = None, lastCompleted = None, agent_error = None, progress = None\<rparr>"

definition initialAgents :: "agent list" where
  "initialAgents =
    [mk_agent ''repository_analyzer'' ''Repository Analyzer'',
     mk_agent ''requirements_extractor'' ''Requirements Extractor'',
     mk_agent ''architecture_designer'' ''Architecture Designer'',
     mk_agent ''implementation_planner'' ''Implementation Planner'',
     mk_agent ''validator'' ''Validator'']"

definition initial_store :: store where
  "initial_store = \<lparr>agents = initialAgents, workflows = [], activeWorkflow = None,
     pendingApprovals = [], isExecuting = False, currentTask = None, activityLog = []\<rparr>"

subsection \<open>Agent actions\<close>

text \<open>
  Each action is zustand's \<open>set\<close> with a partial state: the fields it names are
  replaced, the others are kept. \<open>Array.map\<close> is \<open>map\<close>.
\<close>

definition updateAgentStatus ::
  "string \<Rightarrow> agent_status \<Rightarrow> string option \<Rightarrow> string option \<Rightarrow> store \<Rightarrow> store" where
  "updateAgentStatus agentId status task error s =
     s\<lparr>agents := map (\<lambda>agent.
          if agent_id agent = agentId
          then agent\<lparr>agent_status := status, agent_currentTask := task, agent_error := error,
                 progress := Some (if status = AgentCompleted then 100 else 0)\<rparr>
          else agent) (agents s)\<rparr>"

definition updateAgentProgress :: "string \<Rightarrow> int \<Rightarrow> store \<Rightarrow> store" where
  "updateAgentProgress agentId p s =
     s\<lparr>agents := map (\<lambda>agent.
          if agent_id agent = agentId then agent\<lparr>progress := Some p\<rparr> else agent) (agents s)\<rparr>"

definition resetAgents :: "store \<Rightarrow> store" where
  "resetAgents s = s\<lparr>agents := initialAgents\<rparr>"

subsection \<open>Workflow actions\<close>

text \<open>
  \<open>steps[0]\<close> of an empty array is \<open>undefined\<close>. The clock is an argument: \<open>now\<close> is
  what \<open>Date.now()\<close> returns and \<open>ts\<close> what \<open>new Date().toISOString()\<close> returns. An
  action that stamps several records reads the clock once for all of them.
\<close>

definition first_step :: "string list \<Rightarrow> string option" where
  "first_step xs = (case xs of [] \<Rightarrow> None | x # _ \<Rightarrow> Some x)"

definition startWorkflow :: "string \<Rightarrow> string list \<Rightarrow> nat \<Rightarrow> string \<Rightarrow> store \<Rightarrow> store" where
  "startWorkflow type stps now ts s =
     (let workflow = \<lparr>wf_id = ''workflow_'' @ decimal now, wf_type = type,
            wf_status = WfRunning, startTime = Some ts, endTime = None, steps = stps,
            currentStep = first_step stps, results = None, wf_error = None\<rparr>
      in s\<lparr>workflows := workflows s @ [workflow], activeWorkflow := Some workflow,
           isExecuting := True, currentTask := Some (''Running '' @ type @ '' workflow'')\<rparr>)"

definition updateWorkflowStatus ::
  "string \<Rightarrow> workflow_status \<Rightarrow> string option \<Rightarrow> string option \<Rightarrow> string \<Rightarrow> store \<Rightarrow> store" where
  "updateWorkflowStatus workflowId status cur error ts s =
     s\<lparr>workflows := map (\<lambda>w.
          if wf_id w = workflowId
          then w\<lparr>wf_status := status, currentStep := cur, wf_error := error,
                 endTime := (if status = WfCompleted \<or> status = WfError then Some ts else None)\<rparr>
          else w) (workflows s),
       activeWorkflow :=
         (case activeWorkflow s of
            None \<Rightarrow> None
          | Some aw \<Rightarrow>
              if wf_id aw = workflowId
              then Some (aw\<lparr>wf_status := status, currentStep := cur, wf_error := error\<rparr>)
              else Some aw)\<rparr>"

definition completeWorkflow :: "string \<Rightarrow> any \<Rightarrow> string \<Rightarrow> store \<Rightarrow> store" where
  "completeWorkflow workflowId res ts s =
     s\<lparr>workflows := map (\<lambda>w.
          if wf_id w = workflowId
          then w\<lparr>wf_status := WfCompleted, results := Some res, endTime := Some ts\<rparr>
          else w) (workflows s),
       activeWorkflow :=
         (case activeWorkflow s of
            None \<Rightarrow> None
          | Some aw \<Rightarrow>
              if wf_id aw = workflowId
              then Some (aw\<lparr>wf_status := WfCompleted, results := Some res\<rparr>)
              else Some aw),
       isExecuting := False, currentTask := None\<rparr>"

definition clearWorkflows :: "store \<Rightarrow> store" where
  "clearWorkflows s = s\<lparr>workflows := [], activeWorkflow := None\<rparr>"

subsection \<open>Approval actions\<close>

definition addApprovalRequest :: "approval_input \<Rightarrow> nat \<Rightarrow> string \<Rightarrow> store \<Rightarrow> store" where
  "addApprovalRequest request now ts s =
     (let approval = \<lparr>actionType = actionType request, description = description request,
            riskLevel = riskLevel request, estimatedCost = estimatedCost request,
            estimatedDuration = estimatedDuration request,
            agentInvolved = agentInvolved request,
            ap_id = ''approval_'' @ decimal now, ap_status = Pending, ap_timestamp = ts\<rparr>
      in s\<lparr>pendingApprovals := pendingApprovals s @ [approval]\<rparr>)"

definition resolveApprovalRequest :: "string \<Rightarrow> bool \<Rightarrow> store \<Rightarrow> store" where
  "resolveApprovalRequest requestId approved s =
     s\<lparr>pendingApprovals := map (\<lambda>req.
          if ap_id req = requestId
          then req\<lparr>ap_status := (if approved then Approved else Rejected)\<rparr>
          else req) (pendingApprovals s)\<rparr>"

definition clearApprovals :: "store \<Rightarrow> store" where
  "clearApprovals s = s\<lparr>pendingApprovals := []\<rparr>"

subsection \<open>UI and activity log actions\<close>

text \<open>\<open>task || null\<close>: an absent task and the empty string both give \<open>null\<close>.\<close>

definition setExecuting :: "bool \<Rightarrow> string option \<Rightarrow> store \<Rightarrow> store" where
  "setExecuting executing task s =
     s\<lparr>isExecuting := executing,
       currentTask := (case task of None \<Rightarrow> None | Some t \<Rightarrow> if t = [] then None else Some t)\<rparr>"

definition mk_activity :: "string \<Rightarrow> string \<Rightarrow> any option \<Rightarrow> nat \<Rightarrow> string \<Rightarrow> activity" where
  "mk_activity agentId action details now ts =
     \<lparr>act_id = ''activity_'' @ decimal now, act_agentId = agentId, act_action = action,
      act_timestamp = ts, act_details = details\<rparr>"

text \<open>\<open>[activity, ...state.activityLog.slice(0, 99)]\<close>\<close>

definition addActivity :: "string \<Rightarrow> string \<Rightarrow> any option \<Rightarrow> nat \<Rightarrow> string \<Rightarrow> store \<Rightarrow> store" where
  "addActivity agentId action details now ts s =
     s\<lparr>activityLog := mk_activity agentId action details now ts # take 99 (activityLog s)\<rparr>"

definition clearActivity :: "store \<Rightarrow> store" where
  "clearActivity s = s\<lparr>activityLog := []\<rparr>"

subsection \<open>Sequences of actions\<close>

datatype action =
    UpdateAgentStatus string agent_status "string option" "string option"
  | UpdateAgentProgress string int
  | ResetAgents
  | StartWorkflow string "string list" nat string
  | UpdateWorkflowStatus string workflow_status "string option" "string option" string
  | CompleteWorkflow string any string
  | ClearWorkflows
  | AddApprovalRequest approval_input nat string
  | ResolveApprovalRequest string bool
  | ClearApprovals
  | SetExecuting bool "string option"
  | AddActivity string string "any option" nat string
  | ClearActivity

fun apply_action :: "action \<Rightarrow> store \<Rightarrow> store" where
  "apply_action (UpdateAgentStatus i st t e) s = updateAgentStatus i st t e s"
| "apply_action (UpdateAgentProgress i p) s = updateAgentProgress i p s"
| "apply_action ResetAgents s = resetAgents s"
| "apply_action (StartWorkflow ty stps now ts) s = startWorkflow ty stps now ts s"
| "apply_action (UpdateWorkflowStatus i st c e ts) s = updateWorkflowStatus i st c e ts s"
| "apply_action (CompleteWorkflow i r ts) s = completeWorkflow i r ts s"
| "apply_action ClearWorkflows s = clearWorkflows s"
| "apply_action (AddApprovalRequest r now ts) s = addApprovalRequest r now ts s"
| "apply_action (ResolveApprovalRequest i b) s = resolveApprovalRequest i b s"
| "apply_action ClearApprovals s = clearApprovals s"
| "apply_action (SetExecuting b t) s = setExecuting b t s"
| "apply_action (AddActivity a act d now ts) s = addActivity a act d now ts s"
| "apply_action ClearActivity s = clearActivity s"

text \<open>Actions run one after the other, the first of the list first.\<close>

fun run :: "action list \<Rightarrow> store \<Rightarrow> store" where
  "run [] s = s"
| "run (a # as) s = run as (apply_action a s)"

text \<open>The states the store can be in: the initial one, and any state an action leads to.\<close>

inductive reachable :: "store \<Rightarrow> bool" where
  reachable_init: "reachable initial_store"
| reachable_step: "reachable s \<Longrightarrow> reachable (apply_action a s)"

text \<open>One \<open>addActivity\<close> call: agent id, action text, details, and the two clock readings.\<close>

type_synonym activity_call = "string \<times> string \<times> any option \<times> nat \<times> string"

definition entry_of :: "activity_call \<Rightarrow> activity" where
  "entry_of c = (case c of (a, act, d, now, ts) \<Rightarrow> mk_activity a act d now ts)"

fun addActivities :: "activity_call list \<Rightarrow> store \<Rightarrow> store" where
  "addActivities [] s = s"
| "addActivities (c # cs) s =
     addActivities cs (case c of (a, act, d, now, ts) \<Rightarrow> addActivity a act d now ts s)"

text \<open>A sample run of \<open>n\<close> calls whose entries are pairwise different.\<close>

definition sample_calls :: "nat \<Rightarrow> activity_call list" where
  "sample_calls n = map (\<lambda>k. (''system'', replicate k (CHR ''x''), None, k, [])) [0..<n]"

text \<open>A sample approval request, as an \<open>approval_request\<close> push event delivers one.\<close>

definition sample_request :: approval_input where
  "sample_request = \<lparr>actionType = ''deployment'', description = ''deploy to production'',
     riskLevel = High, estimatedCost = Some 12, estimatedDuration = None,
     agentInvolved = Some ''validator''\<rparr>"

subsection \<open>The step invariant of workflow records\<close>

text \<open>
  A workflow record keeps the step invariant when, while it is running, its current step
  is one of its steps. The records of a store are those of the \<open>workflows\<close> list and
  the copy held as \<open>activeWorkflow\<close>.
\<close>

definition step_in_steps :: "workflow \<Rightarrow> bool" where
  "step_in_steps w =
     (wf_status w = WfRunning \<longrightarrow>
        (case currentStep w of None \<Rightarrow> False | Some c \<Rightarrow> c \<in> set (steps w)))"

definition workflow_records :: "store \<Rightarrow> workflow list" where
  "workflow_records s =
     workflows s @ (case activeWorkflow s of None \<Rightarrow> [] | Some w \<Rightarrow> [w])"

text \<open>
  The store checks neither the steps given to \<open>startWorkflow\<close> nor the step given to
  \<open>updateWorkflowStatus\<close>. An action is \<open>step_checked\<close> when its caller did: a workflow
  is started with at least one step, and an update that sets a record running names a step
  of that record.
\<close>

definition step_checked :: "store \<Rightarrow> action \<Rightarrow> bool" where
  "step_checked s a =
     (case a of
        StartWorkflow ty stps now ts \<Rightarrow> stps \<noteq> []
      | UpdateWorkflowStatus wid st cur er ts \<Rightarrow>
          st = WfRunning \<longrightarrow>
            (\<forall>w \<in> set (workflow_records s). wf_id w = wid \<longrightarrow>
               (case cur of None \<Rightarrow> False | Some c \<Rightarrow> c \<in> set (steps w)))
      | _ \<Rightarrow> True)"

fun all_step_checked :: "action list \<Rightarrow> store \<Rightarrow> bool" where
  "all_step_checked [] s = True"
| "all_step_checked (a # as) s = (step_checked s a \<and> all_step_checked as (apply_action a s))"

section \<open>The resilient request client (ApiClient)\<close>

text \<open>
  JavaScript numbers are doubles. Attempt counts, delays in milliseconds and HTTP statuses
  are integers far below \<open>2^53\<close>, where double arithmetic is exact, so they are \<open>int\<close>
  here. An entry of \<open>retryableErrors\<close> is a number or a string.
\<close>

datatype err_key = KNum int | KStr string

record RetryConfig =
  maxAttempts :: int
  baseDelay :: int
  maxDelay :: int
  backoffFactor :: int
  retryableErrors :: "err_key list"

text \<open>\<open>Partial<RetryConfig>\<close>: a field that is absent is \<open>None\<close>.\<close>

record RetryOverride =
  o_maxAttempts :: "int option"
  o_baseDelay :: "int option"
  o_maxDelay :: "int option"
  o_backoffFactor :: "int option"
  o_retryableErrors :: "err_key list option"

definition no_override :: RetryOverride where
  "no_override = \<lparr>o_maxAttempts = None, o_baseDelay = None, o_maxDelay = None,
     o_backoffFactor = None, o_retryableErrors = None\<rparr>"

text \<open>The values of \<open>config.retryAttempts\<close> and \<open>config.retryDelay\<close> (config.ts).\<close>

definition retryAttempts :: int where
  "retryAttempts = 3"

definition retryDelay :: int where
  "retryDelay = 1000"

text \<open>\<open>this.retryConfig\<close> as the constructor sets it.\<close>

definition client_retryConfig :: RetryConfig where
  "client_retryConfig = \<lparr>maxAttempts = retryAttempts, baseDelay = retryDelay,
     maxDelay = 30000, backoffFactor = 2,
     retryableErrors = [KNum 408, KNum 429, KNum 500, KNum 502, KNum 503, KNum 504,
       KStr ''ECONNABORTED'', KStr ''NETWORK_ERROR'']\<rparr>"

text \<open>\<open>{ ...this.retryConfig, ...customRetryConfig }\<close>\<close>

definition merge_config :: "RetryConfig \<Rightarrow> RetryOverride \<Rightarrow> RetryConfig" where
  "merge_config this custom =
     \<lparr>maxAttempts = (case o_maxAttempts custom of None \<Rightarrow> maxAttempts this | Some v \<Rightarrow> v),
      baseDelay = (case o_baseDelay custom of None \<Rightarrow> baseDelay this | Some v \<Rightarrow> v),
      maxDelay = (case o_maxDelay custom of None \<Rightarrow> maxDelay this | Some v \<Rightarrow> v),
      backoffFactor = (case o_backoffFactor custom of None \<Rightarrow> backoffFactor this | Some v \<Rightarrow> v),
      retryableErrors =
        (case o_retryableErrors custom of None \<Rightarrow> retryableErrors this | Some v \<Rightarrow> v)\<rparr>"

text \<open>
  The body of an error response, as far as \<open>handleError\<close> reads it, and the error axios
  rejects with: \<open>ax_response\<close> is the status and body when the server answered,
  \<open>ax_request\<close> says whether a request was sent.
\<close>

record response_data =
  d_message :: "string option"
  d_detail :: "string option"
  d_code :: "string option"

record axios_error =
  ax_response :: "(int \<times> response_data option) option"
  ax_request :: bool
  ax_message :: "string option"
  ax_code :: "string option"

record ApiError =
  err_message :: string
  err_code :: "string option"
  err_status :: "int option"
  err_details :: "response_data option"
  retryable :: bool

text \<open>\<open>a || b\<close> on optional strings: an absent or empty string is falsy.\<close>

definition or_else :: "string option \<Rightarrow> string \<Rightarrow> string" where
  "or_else a b = (case a of None \<Rightarrow> b | Some x \<Rightarrow> if x = [] then b else x)"

definition render_int :: "int \<Rightarrow> string" where
  "render_int i = (if i < 0 then CHR ''-'' # decimal (nat (- i)) else decimal (nat i))"

text \<open>\<open>if (!error) return false\<close>: \<open>undefined\<close>, \<open>0\<close> and the empty string are falsy.\<close>

definition isRetryableError :: "RetryConfig \<Rightarrow> err_key option \<Rightarrow> bool" where
  "isRetryableError this error =
     (case error of
        None \<Rightarrow> False
      | Some k \<Rightarrow> if k = KNum 0 \<or> k = KStr [] then False else k \<in> set (retryableErrors this))"

definition handleError :: "RetryConfig \<Rightarrow> axios_error \<Rightarrow> ApiError" where
  "handleError this error =
     (case ax_response error of
        Some (status, data) \<Rightarrow>
          \<lparr>err_message =
             or_else (case data of None \<Rightarrow> None | Some d \<Rightarrow> d_message d)
               (or_else (case data of None \<Rightarrow> None | Some d \<Rightarrow> d_detail d)
                  (''HTTP '' @ render_int status @ '' Error'')),
           err_code = (case data of None \<Rightarrow> None | Some d \<Rightarrow> d_code d),
           err_status = Some status, err_details = data,
           retryable = isRetryableError this (Some (KNum status))\<rparr>
      | None \<Rightarrow>
          if ax_request error
          then \<lparr>err_message = ''Network error - no response received'',
                 err_code = Some ''NETWORK_ERROR'', err_status = None, err_details = None,
                 retryable = True\<rparr>
          else \<lparr>err_message = or_else (ax_message error) ''Unknown error occurred'',
                 err_code = ax_code error, err_status = None, err_details = None,
                 retryable = isRetryableError this (map_option KStr (ax_code error))\<rparr>)"

text \<open>
  \<open>Math.pow(backoffFactor, attempt - 1)\<close>; the loop of \<open>request\<close> calls it with
  \<open>attempt \<ge> 1\<close> only. The method reads \<open>this.retryConfig\<close>.
\<close>

definition calculateDelay :: "RetryConfig \<Rightarrow> int \<Rightarrow> int" where
  "calculateDelay this attempt =
     min (baseDelay this * backoffFactor this ^ nat (attempt - 1)) (maxDelay this)"

text \<open>
  \<open>this.client.request(config)\<close> with the response interceptor: a success passes, a
  failure is rejected with \<open>handleError(error)\<close>. What the network does at each attempt is
  an argument of the model: \<open>net k\<close> is the raw result of the \<open>k\<close>-th attempt.
\<close>

definition client_request :: "RetryConfig \<Rightarrow> axios_error + 'r \<Rightarrow> ApiError + 'r" where
  "client_request this raw = (case raw of Inl e \<Rightarrow> Inl (handleError this e) | Inr r \<Rightarrow> Inr r)"

text \<open>
  What a call of \<open>request\<close> does: the response it returns or the error it throws, the
  delays it slept in order, and how many attempts it made.
\<close>

record 'r request_result =
  outcome :: "ApiError + 'r"
  slept :: "int list"
  calls :: nat

function request_loop ::
  "RetryConfig \<Rightarrow> RetryConfig \<Rightarrow> (int \<Rightarrow> axios_error + 'r) \<Rightarrow> int \<Rightarrow> ApiError \<Rightarrow> int list \<Rightarrow> nat
     \<Rightarrow> 'r request_result" where
  "request_loop this retryConfig net attempt lastError sl n =
     (if attempt \<le> maxAttempts retryConfig then
        (case client_request this (net attempt) of
           Inr response \<Rightarrow> \<lparr>outcome = Inr response, slept = sl, calls = Suc n\<rparr>
         | Inl err \<Rightarrow>
             if attempt = maxAttempts retryConfig \<or> \<not> retryable err
             then \<lparr>outcome = Inl err, slept = sl, calls = Suc n\<rparr>
             else request_loop this retryConfig net (attempt + 1) err
                    (sl @ [calculateDelay this attempt]) (Suc n))
      else \<lparr>outcome = Inl lastError, slept = sl, calls = n\<rparr>)"
  by pat_completeness auto
termination
  by (relation "measure (\<lambda>(this, rc, net, attempt, lastError, sl, n).
        nat (maxAttempts rc + 1 - attempt))") auto

declare request_loop.simps [simp del]

definition request :: "RetryConfig \<Rightarrow> RetryOverride \<Rightarrow> (int \<Rightarrow> axios_error + 'r) \<Rightarrow> 'r request_result" where
  "request this customRetryConfig net =
     request_loop this (merge_config this customRetryConfig) net 1
       \<lparr>err_message = ''Unknown error'', err_code = None, err_status = None,
        err_details = None, retryable = False\<rparr> [] 0"

text \<open>The delay formula in the words of the specification, for attempt \<open>n \<ge> 1\<close>.\<close>

definition delay_spec :: "int \<Rightarrow> int \<Rightarrow> int \<Rightarrow> nat \<Rightarrow> int" where
  "delay_spec base factor cap n = min (base * factor ^ (n - 1)) cap"

text \<open>An error response with the given status and no body, and sample networks.\<close>

definition http_error :: "int \<Rightarrow> axios_error" where
  "http_error status = \<lparr>ax_response = Some (status, None), ax_request = True,
     ax_message = None, ax_code = None\<rparr>"

definition fails_then_ok :: "int \<Rightarrow> int \<Rightarrow> 'r \<Rightarrow> int \<Rightarrow> axios_error + 'r" where
  "fails_then_ok status m r k = (if k < m then Inl (http_error status) else Inr r)"

definition unavailable_then_unauthorized :: "int \<Rightarrow> axios_error + string" where
  "unavailable_then_unauthorized k = (if k = 1 then Inl (http_error 503) else Inl (http_error 401))"

section \<open>The real-time connection manager (WebSocketManager)\<close>

record WebSocketMessage =
  msg_type :: string
  msg_data :: any
  msg_timestamp :: string

text \<open>
  The socket.io socket, as far as the manager reads it: its \<open>connected\<close> flag, and
  whether the two handlers that \<open>connect()\<close> registers with \<open>once\<close> are still waiting.
\<close>

record socket =
  connected :: bool
  once_connect :: bool
  once_connect_error :: bool

text \<open>
  The fields of the manager. \<open>emitted\<close> is not a field of the class: it records, in
  order, every message handed to \<open>socket.emit('message', message)\<close>.
\<close>

record ws_manager =
  socket :: "socket option"
  reconnectAttempts :: nat
  isConnecting :: bool
  messageQueue :: "WebSocketMessage list"
  emitted :: "WebSocketMessage list"

definition initial_manager :: ws_manager where
  "initial_manager = \<lparr>socket = None, reconnectAttempts = 0, isConnecting = False,
     messageQueue = [], emitted = []\<rparr>"

text \<open>\<open>this.socket?.connected || false\<close>\<close>

definition isConnected :: "ws_manager \<Rightarrow> bool" where
  "isConnected m = (case socket m of None \<Rightarrow> False | Some sk \<Rightarrow> connected sk)"

text \<open>
  \<open>while (this.messageQueue.length > 0 && this.socket?.connected)\<close>: \<open>shift\<close> takes the
  first message of the queue and the socket emits it.
\<close>

function processMessageQueue :: "ws_manager \<Rightarrow> ws_manager" where
  "processMessageQueue m =
     (case messageQueue m of
        [] \<Rightarrow> m
      | message # rest \<Rightarrow>
          if isConnected m
          then processMessageQueue (m\<lparr>messageQueue := rest, emitted := emitted m @ [message]\<rparr>)
          else m)"
  by pat_completeness auto
termination
  by (relation "measure (\<lambda>m. length (messageQueue m))") auto

declare processMessageQueue.simps [simp del]

text \<open>
  The synchronous part of \<open>connect()\<close>, up to the promise it returns; the argument is
  \<open>config.enableWebSocket\<close>. \<open>io(...)\<close> gives a fresh socket, not yet connected, on which
  the \<open>once('connect')\<close> and \<open>once('connect_error')\<close> handlers are registered; it is
  taken not to throw. A socket the manager no longer points to is not followed further.
\<close>

definition connect :: "bool \<Rightarrow> ws_manager \<Rightarrow> ws_manager" where
  "connect enableWebSocket m =
     (if isConnected m \<or> isConnecting m then m
      else if \<not> enableWebSocket then m
      else m\<lparr>isConnecting := True,
             socket := Some \<lparr>connected = False, once_connect = True, once_connect_error = True\<rparr>\<rparr>)"

text \<open>\<open>send(event, data)\<close>; \<open>ts\<close> is what \<open>new Date().toISOString()\<close> returns.\<close>

definition send :: "bool \<Rightarrow> string \<Rightarrow> any \<Rightarrow> string \<Rightarrow> ws_manager \<Rightarrow> ws_manager" where
  "send enableWebSocket event data ts m =
     (let message = \<lparr>msg_type = event, msg_data = data, msg_timestamp = ts\<rparr>
      in if isConnected m then m\<lparr>emitted := emitted m @ [message]\<rparr>
         else (let m1 = m\<lparr>messageQueue := messageQueue m @ [message]\<rparr>
               in if \<not> isConnecting m1 then connect enableWebSocket m1 else m1))"

definition disconnect :: "ws_manager \<Rightarrow> ws_manager" where
  "disconnect m = m\<lparr>socket := None, isConnecting := False\<rparr>"

text \<open>
  The socket reports that it is connected. socket.io sets \<open>connected\<close> and fires
  \<open>connect\<close>: the handler of \<open>setupSocketEventHandlers\<close> resets the attempt counter, and
  the \<open>once\<close> handler of \<open>connect()\<close>, if it has not run yet, clears \<open>isConnecting\<close> and
  calls \<open>processMessageQueue\<close>. Without a socket there is no such event.
\<close>

definition on_connect :: "ws_manager \<Rightarrow> ws_manager" where
  "on_connect m =
     (case socket m of
        None \<Rightarrow> m
      | Some sk \<Rightarrow>
          if once_connect sk
          then processMessageQueue
                 (m\<lparr>socket := Some (sk\<lparr>connected := True, once_connect := False\<rparr>),
                    reconnectAttempts := 0, isConnecting := False\<rparr>)
          else m\<lparr>socket := Some (sk\<lparr>connected := True\<rparr>), reconnectAttempts := 0\<rparr>)"

text \<open>The first \<open>connect_error\<close> of a socket: the other \<open>once\<close> handler of \<open>connect()\<close>.\<close>

definition on_connect_error :: "ws_manager \<Rightarrow> ws_manager" where
  "on_connect_error m =
     (case socket m of
        None \<Rightarrow> m
      | Some sk \<Rightarrow>
          if once_connect_error sk
          then m\<lparr>socket := Some (sk\<lparr>once_connect_error := False\<rparr>), isConnecting := False\<rparr>
          else m)"

text \<open>
  The socket reports a disconnect. Only the reason \<open>io server disconnect\<close> makes the
  manager call \<open>connect()\<close> itself.
\<close>

definition on_disconnect :: "bool \<Rightarrow> bool \<Rightarrow> ws_manager \<Rightarrow> ws_manager" where
  "on_disconnect enableWebSocket by_server m =
     (case socket m of
        None \<Rightarrow> m
      | Some sk \<Rightarrow>
          (let m1 = m\<lparr>socket := Some (sk\<lparr>connected := False\<rparr>)\<rparr>
           in if by_server then connect enableWebSocket m1 else m1))"

text \<open>What can happen to the manager, and the states it can be in.\<close>

datatype ws_event =
    Send string any string
  | Connect
  | Disconnect
  | OnConnect
  | OnConnectError
  | OnDisconnect bool

fun ws_step :: "bool \<Rightarrow> ws_event \<Rightarrow> ws_manager \<Rightarrow> ws_manager" where
  "ws_step en (Send event data ts) m = send en event data ts m"
| "ws_step en Connect m = connect en m"
| "ws_step en Disconnect m = disconnect m"
| "ws_step en OnConnect m = on_connect m"
| "ws_step en OnConnectError m = on_connect_error m"
| "ws_step en (OnDisconnect by_server) m = on_disconnect en by_server m"

inductive ws_reachable :: "bool \<Rightarrow> ws_manager \<Rightarrow> bool" for en :: bool where
  ws_init: "ws_reachable en initial_manager"
| ws_next: "ws_reachable en m \<Longrightarrow> ws_reachable en (ws_step en ev m)"

text \<open>One \<open>send\<close> call: event name, data and the clock reading; and a run of calls.\<close>

type_synonym send_call = "string \<times> any \<times> string"

definition envelope :: "send_call \<Rightarrow> WebSocketMessage" where
  "envelope c = (case c of (event, data, ts) \<Rightarrow>
     \<lparr>msg_type = event, msg_data = data, msg_timestamp = ts\<rparr>)"

fun sends :: "bool \<Rightarrow> send_call list \<Rightarrow> ws_manager \<Rightarrow> ws_manager" where
  "sends enableWebSocket [] m = m"
| "sends enableWebSocket (c # cs) m =
     sends enableWebSocket cs (case c of (event, data, ts) \<Rightarrow> send enableWebSocket event data ts m)"

text \<open>The current socket exists and its \<open>once('connect')\<close> handler has not run yet.\<close>

definition handler_waiting :: "ws_manager \<Rightarrow> bool" where
  "handler_waiting m = (case socket m of None \<Rightarrow> False | Some sk \<Rightarrow> once_connect sk)"

section \<open>Properties of the store\<close>

lemma map_no_match:
  "\<forall>x \<in> set xs. key x \<noteq> k \<Longrightarrow> map (\<lambda>x. if key x = k then f x else x) xs = xs"
  by (induction xs) auto

lemma take_cons_take:
  "take 100 (xs @ e # take 99 ys) = take 100 (xs @ e # ys)"
  by (cases "length xs < 100") (auto simp: take_Cons' min_def)

lemma addActivity_log:
  "activityLog (addActivity a act d now ts s) = entry_of (a, act, d, now, ts) # take 99 (activityLog s)"
  by (simp add: addActivity_def entry_of_def)

lemma addActivity_length: "length (activityLog (addActivity a act d now ts s)) \<le> 100"
  by (simp add: addActivity_def)

lemma addActivities_log:
  "cs \<noteq> [] \<or> length (activityLog s) \<le> 100 \<Longrightarrow>
   activityLog (addActivities cs s) = take 100 (rev (map entry_of cs) @ activityLog s)"
proof (induction cs arbitrary: s)
  case Nil
  then show ?case by simp
next
  case (Cons c cs)
  obtain a act d now ts where c: "c = (a, act, d, now, ts)"
    by (cases c) auto
  let ?s1 = "addActivity a act d now ts s"
  have "activityLog (addActivities cs ?s1) = take 100 (rev (map entry_of cs) @ activityLog ?s1)"
    by (rule Cons.IH) (simp add: addActivity_length)
  also have "\<dots> = take 100 (rev (map entry_of cs) @ entry_of c # take 99 (activityLog s))"
    by (simp only: addActivity_log c)
  also have "\<dots> = take 100 (rev (map entry_of cs) @ entry_of c # activityLog s)"
    by (rule take_cons_take)
  finally show ?case
    by (simp add: c)
qed

lemmas store_action_defs =
  updateAgentStatus_def updateAgentProgress_def resetAgents_def
  startWorkflow_def updateWorkflowStatus_def completeWorkflow_def clearWorkflows_def
  addApprovalRequest_def resolveApprovalRequest_def clearApprovals_def setExecuting_def
  addActivity_def clearActivity_def

lemma reachable_log_bounded: "reachable s \<Longrightarrow> length (activityLog s) \<le> 100"
proof (induction rule: reachable.induct)
  case reachable_init
  then show ?case by (simp add: initial_store_def)
next
  case (reachable_step s a)
  then show ?case
    by (cases a) (simp_all add: store_action_defs Let_def)
qed

text \<open>
  Claim C5. In every reachable store state the activity log holds at most 100 entries.
  Any sequence of \<open>addActivity\<close> calls leaves the log equal to the first 100 elements
  of: the new entries, newest first, followed by the old log. So the log is ordered
  newest first and what is cut off is the oldest end. In particular 105 calls on an empty
  log leave exactly 100 entries, the last added entry first, namely the 100 newest in
  reverse order of addition; the 5 oldest entries are not among them.
\<close>

theorem activity_log_bounded_newest_first:
  assumes "reachable s"
  shows "length (activityLog s) \<le> 100 \<and>
    length (activityLog (addActivities cs s)) \<le> 100 \<and>
    activityLog (addActivities cs s) = take 100 (rev (map entry_of cs) @ activityLog s) \<and>
    (length cs = 105 \<and> activityLog s = [] \<longrightarrow>
       length (activityLog (addActivities cs s)) = 100 \<and>
       hd (activityLog (addActivities cs s)) = entry_of (last cs) \<and>
       activityLog (addActivities cs s) = rev (drop 5 (map entry_of cs)) \<and>
       (distinct (map entry_of cs) \<longrightarrow>
          set (take 5 (map entry_of cs)) \<inter> set (activityLog (addActivities cs s)) = {}))"
proof -
  have bound: "length (activityLog s) \<le> 100"
    using assms by (rule reachable_log_bounded)
  have log: "activityLog (addActivities cs s) = take 100 (rev (map entry_of cs) @ activityLog s)"
    by (rule addActivities_log) (simp add: bound)
  have len: "length (activityLog (addActivities cs s)) \<le> 100"
    by (simp add: log)
  have special: "length (activityLog (addActivities cs s)) = 100 \<and>
       hd (activityLog (addActivities cs s)) = entry_of (last cs) \<and>
       activityLog (addActivities cs s) = rev (drop 5 (map entry_of cs)) \<and>
       (distinct (map entry_of cs) \<longrightarrow>
          set (take 5 (map entry_of cs)) \<inter> set (activityLog (addActivities cs s)) = {})"
    if n: "length cs = 105" and e: "activityLog s = []"
  proof -
    let ?es = "map entry_of cs"
    have eq: "activityLog (addActivities cs s) = rev (drop 5 ?es)"
      using n by (simp add: log e take_rev)
    have ne: "cs \<noteq> []" using n by auto
    have "drop 5 ?es \<noteq> []" using n by simp
    then have "hd (rev (drop 5 ?es)) = last ?es"
      by (simp add: hd_rev)
    then have h: "hd (activityLog (addActivities cs s)) = entry_of (last cs)"
      using ne by (simp add: eq last_map)
    have d: "set (take 5 ?es) \<inter> set (rev (drop 5 ?es)) = {}" if "distinct ?es"
    proof -
      from that have "distinct (take 5 ?es @ drop 5 ?es)" by simp
      then show ?thesis unfolding distinct_append by simp
    qed
    show ?thesis using n h d by (simp add: eq)
  qed
  show ?thesis using bound len log special by blast
qed

theorem activity_log_105_witness:
  "reachable initial_store \<and>
   length (activityLog (addActivities (sample_calls 105) initial_store)) = 100 \<and>
   hd (activityLog (addActivities (sample_calls 105) initial_store))
     = mk_activity ''system'' (replicate 104 (CHR ''x'')) None 104 [] \<and>
   set (take 5 (map entry_of (sample_calls 105)))
     \<inter> set (activityLog (addActivities (sample_calls 105) initial_store)) = {}"
proof -
  have r: "reachable initial_store" by (rule reachable_init)
  have l: "length (sample_calls 105) = 105" by (simp add: sample_calls_def)
  have e: "activityLog initial_store = []" by (simp add: initial_store_def)
  have d: "distinct (map entry_of (sample_calls 105))"
    by (simp add: sample_calls_def distinct_map inj_on_def entry_of_def mk_activity_def comp_def)
  have "last (sample_calls 105) = (''system'', replicate 104 (CHR ''x''), None, 104, [])"
    by (simp add: sample_calls_def last_map)
  then have la: "entry_of (last (sample_calls 105))
      = mk_activity ''system'' (replicate 104 (CHR ''x'')) None 104 []"
    by (simp add: entry_of_def)
  note t = activity_log_bounded_newest_first [OF r, of "sample_calls 105"]
  from t l e have A: "length (activityLog (addActivities (sample_calls 105) initial_store)) = 100"
    by blast
  from t l e have B: "hd (activityLog (addActivities (sample_calls 105) initial_store))
      = entry_of (last (sample_calls 105))"
    by blast
  from t l e d have C: "set (take 5 (map entry_of (sample_calls 105)))
     \<inter> set (activityLog (addActivities (sample_calls 105) initial_store)) = {}"
    by blast
  show ?thesis using r A B [unfolded la] C by blast
qed

text \<open>
  Claim C7. When no approval request of the store has the given identifier,
  \<open>resolveApprovalRequest\<close> leaves the list of approvals as it was (no entry is
  added, none is changed); the whole store is unchanged. The action is a total function:
  there is no failing branch.
\<close>

theorem resolve_unknown_id_noop:
  assumes "\<forall>req \<in> set (pendingApprovals s). ap_id req \<noteq> requestId"
  shows "pendingApprovals (resolveApprovalRequest requestId approved s) = pendingApprovals s \<and>
    resolveApprovalRequest requestId approved s = s"
  using assms by (simp add: resolveApprovalRequest_def map_no_match)

theorem resolve_unknown_id_witness:
  "pendingApprovals (resolveApprovalRequest ''approval_2'' True
     (addApprovalRequest sample_request 1 [] initial_store))
   = pendingApprovals (addApprovalRequest sample_request 1 [] initial_store) \<and>
   map ap_id (pendingApprovals (addApprovalRequest sample_request 1 [] initial_store))
   = [''approval_1'']"
  using resolve_unknown_id_noop
    [of "addApprovalRequest sample_request 1 [] initial_store" "''approval_2''" True]
  by (simp add: addApprovalRequest_def initial_store_def decimal.simps digit_char_def)

text \<open>
  Claim C8. \<open>updateAgentStatus\<close> keeps the number and order of agents. An agent whose
  id is the given one gets the given status, task and error, and progress 100 when the
  status is completed and 0 otherwise; its id, name and last-completed stamp stay. Every
  agent with another id is unchanged, and so is every other part of the store.
\<close>

theorem updateAgentStatus_frame:
  "length (agents (updateAgentStatus agentId status task error s)) = length (agents s) \<and>
   (\<forall>i < length (agents s).
      (agent_id (agents s ! i) = agentId \<longrightarrow>
         agent_status (agents (updateAgentStatus agentId status task error s) ! i) = status \<and>
         agent_currentTask (agents (updateAgentStatus agentId status task error s) ! i) = task \<and>
         agent_error (agents (updateAgentStatus agentId status task error s) ! i) = error \<and>
         progress (agents (updateAgentStatus agentId status task error s) ! i)
           = Some (if status = AgentCompleted then 100 else 0) \<and>
         agent_id (agents (updateAgentStatus agentId status task error s) ! i) = agentId \<and>
         agent_name (agents (updateAgentStatus agentId status task error s) ! i)
           = agent_name (agents s ! i) \<and>
         lastCompleted (agents (updateAgentStatus agentId status task error s) ! i)
           = lastCompleted (agents s ! i)) \<and>
      (agent_id (agents s ! i) \<noteq> agentId \<longrightarrow>
         agents (updateAgentStatus agentId status task error s) ! i = agents s ! i)) \<and>
   workflows (updateAgentStatus agentId status task error s) = workflows s \<and>
   activeWorkflow (updateAgentStatus agentId status task error s) = activeWorkflow s \<and>
   pendingApprovals (updateAgentStatus agentId status task error s) = pendingApprovals s \<and>
   isExecuting (updateAgentStatus agentId status task error s) = isExecuting s \<and>
   currentTask (updateAgentStatus agentId status task error s) = currentTask s \<and>
   activityLog (updateAgentStatus agentId status task error s) = activityLog s"
  by (simp add: updateAgentStatus_def)

theorem updateAgentStatus_frame_witness:
  "agent_id (agents initial_store ! 0) = ''repository_analyzer'' \<and>
   progress (agents (updateAgentStatus ''repository_analyzer'' AgentCompleted None None
      initial_store) ! 0) = Some 100 \<and>
   agent_status (agents (updateAgentStatus ''repository_analyzer'' AgentCompleted None None
      initial_store) ! 0) = AgentCompleted \<and>
   agent_id (agents initial_store ! 1) \<noteq> ''repository_analyzer'' \<and>
   agents (updateAgentStatus ''repository_analyzer'' AgentCompleted None None initial_store) ! 1
     = agents initial_store ! 1 \<and>
   drop 1 (agents (updateAgentStatus ''repository_analyzer'' AgentCompleted None None initial_store))
     = drop 1 (agents initial_store)"
proof -
  have len: "length (agents initial_store) = 5"
    by (simp add: initial_store_def initialAgents_def)
  have id0: "agent_id (agents initial_store ! 0) = ''repository_analyzer''"
    by (simp add: initial_store_def initialAgents_def mk_agent_def)
  have id1: "agent_id (agents initial_store ! 1) \<noteq> ''repository_analyzer''"
    by (simp add: initial_store_def initialAgents_def mk_agent_def)
  note t = updateAgentStatus_frame
    [of "''repository_analyzer''" AgentCompleted None None initial_store]
  from t len id0 have A:
    "progress (agents (updateAgentStatus ''repository_analyzer'' AgentCompleted None None
      initial_store) ! 0) = Some 100 \<and>
     agent_status (agents (updateAgentStatus ''repository_analyzer'' AgentCompleted None None
      initial_store) ! 0) = AgentCompleted"
    by simp
  from t len id1 have B:
    "agents (updateAgentStatus ''repository_analyzer'' AgentCompleted None None initial_store) ! 1
     = agents initial_store ! 1"
    by simp
  have C: "drop 1 (agents (updateAgentStatus ''repository_analyzer'' AgentCompleted None None initial_store))
     = drop 1 (agents initial_store)"
    by (simp add: updateAgentStatus_def initial_store_def initialAgents_def mk_agent_def)
  show ?thesis using id0 id1 A B C by blast
qed

text \<open>
  Claim C10. When no agent of the store has the given identifier, \<open>updateAgentStatus\<close>
  and \<open>updateAgentProgress\<close> return the store unchanged: no agent is added and the
  list of agents is the same. Both are total functions with no failing branch.
\<close>

theorem unknown_agent_noop:
  assumes "\<forall>a \<in> set (agents s). agent_id a \<noteq> agentId"
  shows "updateAgentStatus agentId status task error s = s \<and>
    updateAgentProgress agentId p s = s \<and>
    agents (updateAgentStatus agentId status task error s) = agents s \<and>
    agents (updateAgentProgress agentId p s) = agents s"
  using assms by (simp add: updateAgentStatus_def updateAgentProgress_def map_no_match)

theorem unknown_agent_noop_witness:
  "updateAgentStatus ''deployment_agent'' AgentRunning (Some ''deploy'') None initial_store
     = initial_store \<and>
   updateAgentProgress ''deployment_agent'' 40 initial_store = initial_store \<and>
   length (agents (updateAgentStatus ''deployment_agent'' AgentRunning (Some ''deploy'') None
     initial_store)) = 5"
proof -
  have h: "\<forall>a \<in> set (agents initial_store). agent_id a \<noteq> ''deployment_agent''"
    by (simp add: initial_store_def initialAgents_def mk_agent_def)
  have len: "length (agents initial_store) = 5"
    by (simp add: initial_store_def initialAgents_def)
  show ?thesis
    using unknown_agent_noop [OF h, of AgentRunning "Some ''deploy''" None 40] len by simp
qed

lemma decimal_42: "decimal 42 = ''42''"
  by (simp add: decimal.simps digit_char_def)

text \<open>
  Claim C6, as stated, fails: \<open>resolveApprovalRequest\<close> does not look at the status a
  request has. A request is created pending, approved by a first resolution and rejected
  by a second one with the same identifier.
\<close>

theorem approval_reversed_counterexample:
  "map ap_status (pendingApprovals (run
      [AddApprovalRequest sample_request 42 [], ResolveApprovalRequest ''approval_42'' True]
      initial_store)) = [Approved] \<and>
   map ap_status (pendingApprovals (run
      [AddApprovalRequest sample_request 42 [], ResolveApprovalRequest ''approval_42'' True,
       ResolveApprovalRequest ''approval_42'' False]
      initial_store)) = [Rejected]"
  by (simp add: addApprovalRequest_def resolveApprovalRequest_def initial_store_def decimal_42 Let_def first_step_def)

text \<open>
  Claim C6, amended. Across any store action, the request at a position of the approvals
  list (if the list still has that position) keeps its identifier, and is changed only by
  \<open>resolveApprovalRequest\<close> with its identifier, which sets its status to approved or
  rejected as the flag says, whatever the status was. So a status that is not pending
  never becomes pending again; it may move between approved and rejected.
\<close>

theorem approval_status_step:
  assumes "i < length (pendingApprovals s)"
    and "i < length (pendingApprovals (apply_action a s))"
  shows "(case a of
       ResolveApprovalRequest requestId approved \<Rightarrow>
         if ap_id (pendingApprovals s ! i) = requestId
         then pendingApprovals (apply_action a s) ! i
                = (pendingApprovals s ! i)\<lparr>ap_status := (if approved then Approved else Rejected)\<rparr>
         else pendingApprovals (apply_action a s) ! i = pendingApprovals s ! i
     | _ \<Rightarrow> pendingApprovals (apply_action a s) ! i = pendingApprovals s ! i) \<and>
    ap_id (pendingApprovals (apply_action a s) ! i) = ap_id (pendingApprovals s ! i) \<and>
    (ap_status (pendingApprovals s ! i) \<noteq> Pending \<longrightarrow>
       ap_status (pendingApprovals (apply_action a s) ! i) \<noteq> Pending)"
  using assms by (cases a) (auto simp: store_action_defs Let_def nth_append)

theorem approval_status_step_witness:
  "ap_status (pendingApprovals (addApprovalRequest sample_request 42 [] initial_store) ! 0)
     = Pending \<and>
   ap_status (pendingApprovals (apply_action (ResolveApprovalRequest ''approval_42'' True)
     (addApprovalRequest sample_request 42 [] initial_store)) ! 0) = Approved \<and>
   ap_status (pendingApprovals (apply_action (ResolveApprovalRequest ''approval_42'' False)
     (apply_action (ResolveApprovalRequest ''approval_42'' True)
       (addApprovalRequest sample_request 42 [] initial_store))) ! 0) \<noteq> Pending"
proof -
  let ?s0 = "addApprovalRequest sample_request 42 [] initial_store"
  let ?s1 = "apply_action (ResolveApprovalRequest ''approval_42'' True) ?s0"
  have l0: "0 < length (pendingApprovals ?s0)"
    by (simp add: addApprovalRequest_def)
  have l1: "0 < length (pendingApprovals ?s1)"
    by (simp add: addApprovalRequest_def resolveApprovalRequest_def)
  have l2: "0 < length (pendingApprovals
      (apply_action (ResolveApprovalRequest ''approval_42'' False) ?s1))"
    by (simp add: addApprovalRequest_def resolveApprovalRequest_def)
  have id0: "ap_id (pendingApprovals ?s0 ! 0) = ''approval_42''"
    by (simp add: addApprovalRequest_def decimal_42 initial_store_def)
  have p0: "ap_status (pendingApprovals ?s0 ! 0) = Pending"
    by (simp add: addApprovalRequest_def initial_store_def)
  from approval_status_step [OF l0 l1] id0
  have a1: "ap_status (pendingApprovals ?s1 ! 0) = Approved"
    by simp
  from approval_status_step [OF l1 l2] a1
  have "ap_status (pendingApprovals
      (apply_action (ResolveApprovalRequest ''approval_42'' False) ?s1) ! 0) \<noteq> Pending"
    by simp
  with p0 a1 show ?thesis by blast
qed

lemma startWorkflow_records:
  "stps \<noteq> [] \<Longrightarrow> \<forall>w \<in> set (workflow_records s). step_in_steps w \<Longrightarrow>
   \<forall>w \<in> set (workflow_records (startWorkflow ty stps now ts s)). step_in_steps w"
  by (cases stps) (auto simp: startWorkflow_def workflow_records_def step_in_steps_def
      first_step_def Let_def split: option.splits)

lemma completeWorkflow_records:
  "\<forall>w \<in> set (workflow_records s). step_in_steps w \<Longrightarrow>
   \<forall>w \<in> set (workflow_records (completeWorkflow wid r ts s)). step_in_steps w"
  by (auto simp: completeWorkflow_def workflow_records_def step_in_steps_def
      split: option.splits if_splits)

lemma updateWorkflowStatus_records:
  "step_checked s (UpdateWorkflowStatus wid st cur er ts) \<Longrightarrow>
   \<forall>w \<in> set (workflow_records s). step_in_steps w \<Longrightarrow>
   \<forall>w \<in> set (workflow_records (updateWorkflowStatus wid st cur er ts s)). step_in_steps w"
  by (auto simp: updateWorkflowStatus_def workflow_records_def step_in_steps_def step_checked_def
      split: option.splits if_splits)

lemma step_invariant_step:
  "step_checked s a \<Longrightarrow> \<forall>w \<in> set (workflow_records s). step_in_steps w \<Longrightarrow>
   \<forall>w \<in> set (workflow_records (apply_action a s)). step_in_steps w"
proof (cases a)
  case (StartWorkflow ty stps now ts)
  then show "step_checked s a \<Longrightarrow> \<forall>w \<in> set (workflow_records s). step_in_steps w \<Longrightarrow> ?thesis"
    using startWorkflow_records by (simp add: step_checked_def)
next
  case (UpdateWorkflowStatus wid st cur er ts)
  then show "step_checked s a \<Longrightarrow> \<forall>w \<in> set (workflow_records s). step_in_steps w \<Longrightarrow> ?thesis"
    using updateWorkflowStatus_records by simp
next
  case (CompleteWorkflow wid r ts)
  then show "step_checked s a \<Longrightarrow> \<forall>w \<in> set (workflow_records s). step_in_steps w \<Longrightarrow> ?thesis"
    using completeWorkflow_records by simp
qed (simp_all add: workflow_records_def updateAgentStatus_def updateAgentProgress_def
    resetAgents_def clearWorkflows_def addApprovalRequest_def resolveApprovalRequest_def
    clearApprovals_def setExecuting_def addActivity_def clearActivity_def Let_def)

text \<open>
  Claim C9, amended. The store keeps the step invariant (a running record's current step
  is one of its steps) for every record along every sequence of actions in which each
  \<open>startWorkflow\<close> is given at least one step and each \<open>updateWorkflowStatus\<close> that sets
  a record running is given a step of that record. The store itself checks neither.
\<close>

theorem step_invariant_checked_runs:
  assumes "\<forall>w \<in> set (workflow_records s). step_in_steps w"
    and "all_step_checked as s"
  shows "\<forall>w \<in> set (workflow_records (run as s)). step_in_steps w"
  using assms
proof (induction as arbitrary: s)
  case Nil
  then show ?case by simp
next
  case (Cons a as)
  from Cons.prems have c: "step_checked s a"
    by simp
  have "\<forall>w \<in> set (workflow_records (apply_action a s)). step_in_steps w"
    by (rule step_invariant_step [OF c Cons.prems(1)])
  moreover from Cons.prems have "all_step_checked as (apply_action a s)"
    by simp
  ultimately show ?case
    using Cons.IH by simp
qed

theorem step_invariant_witness:
  "all_step_checked
     [StartWorkflow ''full_analysis'' [''analyze'', ''extract'', ''design''] 42 [],
      UpdateWorkflowStatus ''workflow_42'' WfRunning (Some ''extract'') None []] initial_store \<and>
   step_in_steps (workflows (run
     [StartWorkflow ''full_analysis'' [''analyze'', ''extract'', ''design''] 42 [],
      UpdateWorkflowStatus ''workflow_42'' WfRunning (Some ''extract'') None []] initial_store) ! 0) \<and>
   wf_status (workflows (run
     [StartWorkflow ''full_analysis'' [''analyze'', ''extract'', ''design''] 42 [],
      UpdateWorkflowStatus ''workflow_42'' WfRunning (Some ''extract'') None []] initial_store) ! 0)
     = WfRunning \<and>
   currentStep (workflows (run
     [StartWorkflow ''full_analysis'' [''analyze'', ''extract'', ''design''] 42 [],
      UpdateWorkflowStatus ''workflow_42'' WfRunning (Some ''extract'') None []] initial_store) ! 0)
     = Some ''extract''"
proof -
  let ?as = "[StartWorkflow ''full_analysis'' [''analyze'', ''extract'', ''design''] 42 [],
      UpdateWorkflowStatus ''workflow_42'' WfRunning (Some ''extract'') None []]"
  have h1: "\<forall>w \<in> set (workflow_records initial_store). step_in_steps w"
    by (simp add: workflow_records_def initial_store_def)
  have h2: "all_step_checked ?as initial_store"
    by (simp add: step_checked_def startWorkflow_def workflow_records_def initial_store_def
        decimal_42 Let_def first_step_def)
  have m: "workflows (run ?as initial_store) ! 0 \<in> set (workflow_records (run ?as initial_store))"
    by (simp add: workflow_records_def startWorkflow_def updateWorkflowStatus_def
        initial_store_def decimal_42 Let_def first_step_def)
  from step_invariant_checked_runs [OF h1 h2] m
  have inv: "step_in_steps (workflows (run ?as initial_store) ! 0)"
    by blast
  have st: "wf_status (workflows (run ?as initial_store) ! 0) = WfRunning"
    by (simp add: startWorkflow_def updateWorkflowStatus_def initial_store_def decimal_42 Let_def first_step_def)
  have cs: "currentStep (workflows (run ?as initial_store) ! 0) = Some ''extract''"
    by (simp add: startWorkflow_def updateWorkflowStatus_def initial_store_def decimal_42 Let_def first_step_def)
  show ?thesis using h2 inv st cs by blast
qed

text \<open>
  Claim C9, as stated, fails. \<open>updateWorkflowStatus\<close> stores the step it is given: a
  running update that carries no step leaves the record running with no current step.
  \<open>startWorkflow\<close> with an empty list of steps does the same.
\<close>

theorem running_step_unchecked_counterexample:
  "wf_status (workflows (run
     [StartWorkflow ''full_analysis'' [''analyze'', ''extract'', ''design''] 42 [],
      UpdateWorkflowStatus ''workflow_42'' WfRunning None None []] initial_store) ! 0) = WfRunning \<and>
   currentStep (workflows (run
     [StartWorkflow ''full_analysis'' [''analyze'', ''extract'', ''design''] 42 [],
      UpdateWorkflowStatus ''workflow_42'' WfRunning None None []] initial_store) ! 0) = None \<and>
   \<not> step_in_steps (workflows (run
     [StartWorkflow ''full_analysis'' [''analyze'', ''extract'', ''design''] 42 [],
      UpdateWorkflowStatus ''workflow_42'' WfRunning None None []] initial_store) ! 0) \<and>
   wf_status (workflows (run [StartWorkflow ''full_analysis'' [] 42 []] initial_store) ! 0)
     = WfRunning \<and>
   currentStep (workflows (run [StartWorkflow ''full_analysis'' [] 42 []] initial_store) ! 0)
     = None \<and>
   \<not> step_in_steps (workflows (run [StartWorkflow ''full_analysis'' [] 42 []] initial_store) ! 0)"
  by (simp add: startWorkflow_def updateWorkflowStatus_def initial_store_def decimal_42
      step_in_steps_def first_step_def Let_def)

section \<open>Properties of the request client\<close>

lemma request_loop_calls_ge: "n \<le> calls (request_loop this rc net a le sl n)"
proof (induction this rc net a le sl n rule: request_loop.induct)
  case (1 this rc net a le sl n)
  show ?case
  proof (cases "a \<le> maxAttempts rc")
    case False
    then show ?thesis by (simp add: request_loop.simps)
  next
    case True
    show ?thesis
    proof (cases "client_request this (net a)")
      case (Inr r)
      with True show ?thesis by (simp add: request_loop.simps)
    next
      case (Inl err)
      show ?thesis
      proof (cases "a = maxAttempts rc \<or> \<not> retryable err")
        case True
        with \<open>a \<le> maxAttempts rc\<close> Inl show ?thesis by (auto simp: request_loop.simps)
      next
        case False
        with "1.IH" [OF \<open>a \<le> maxAttempts rc\<close> Inl False] \<open>a \<le> maxAttempts rc\<close> Inl
        show ?thesis
          by (subst request_loop.simps) auto
      qed
    qed
  qed
qed

lemma request_loop_calls_gt:
  "a \<le> maxAttempts rc \<Longrightarrow> Suc n \<le> calls (request_loop this rc net a le sl n)"
  using request_loop_calls_ge [of "Suc n" this rc net "a + 1"]
  by (subst request_loop.simps) (auto split: sum.splits)

lemma request_loop_slept:
  "1 \<le> a \<Longrightarrow>
   slept (request_loop this rc net a le sl (nat (a - 1)))
     = sl @ map (calculateDelay this)
         [a .. int (calls (request_loop this rc net a le sl (nat (a - 1)))) - 1]"
proof (induction this rc net a le sl "nat (a - 1)" rule: request_loop.induct)
  case (1 this rc net a le sl)
  let ?n = "nat (a - 1)"
  have suc: "Suc ?n = nat (a + 1 - 1)" using "1.prems" by simp
  show ?case
  proof (cases "a \<le> maxAttempts rc")
    case False
    then show ?thesis using "1.prems" by (simp add: request_loop.simps)
  next
    case True
    show ?thesis
    proof (cases "client_request this (net a)")
      case (Inr r)
      with True "1.prems" show ?thesis by (simp add: request_loop.simps)
    next
      case (Inl err)
      show ?thesis
      proof (cases "a = maxAttempts rc \<or> \<not> retryable err")
        case True
        with \<open>a \<le> maxAttempts rc\<close> Inl "1.prems" show ?thesis
          by (auto simp: request_loop.simps)
      next
        case False
        let ?r = "request_loop this rc net (a + 1) err (sl @ [calculateDelay this a]) (Suc ?n)"
        have unfold: "request_loop this rc net a le sl ?n = ?r"
          using \<open>a \<le> maxAttempts rc\<close> Inl False by (subst request_loop.simps) auto
        have "a + 1 \<le> maxAttempts rc" using False \<open>a \<le> maxAttempts rc\<close> by simp
        then have "Suc (Suc ?n) \<le> calls ?r" by (rule request_loop_calls_gt)
        then have big: "a \<le> int (calls ?r) - 1" using "1.prems" by simp
        have "slept ?r = (sl @ [calculateDelay this a]) @ map (calculateDelay this)
            [a + 1 .. int (calls ?r) - 1]"
          using "1.hyps" [OF \<open>a \<le> maxAttempts rc\<close> Inl False suc] "1.prems" suc by simp
        also have "\<dots> = sl @ map (calculateDelay this) [a .. int (calls ?r) - 1]"
          using big by (simp add: upto_rec1 [of a])
        finally show ?thesis by (simp only: unfold)
      qed
    qed
  qed
qed

lemma request_slept:
  "slept (request this custom net)
     = map (calculateDelay this) [1 .. int (calls (request this custom net)) - 1]"
  using request_loop_slept [of 1 this "merge_config this custom" net _ "[]"]
  by (simp add: request_def)

lemma request_loop_terminal:
  "1 \<le> a \<Longrightarrow> a \<le> j \<Longrightarrow>
   j \<le> int (calls (request_loop this rc net a le sl (nat (a - 1)))) \<Longrightarrow>
   net j = Inl e \<Longrightarrow> \<not> retryable (handleError this e) \<Longrightarrow>
   int (calls (request_loop this rc net a le sl (nat (a - 1)))) = j \<and>
   outcome (request_loop this rc net a le sl (nat (a - 1))) = Inl (handleError this e)"
proof (induction this rc net a le sl "nat (a - 1)" rule: request_loop.induct)
  case (1 this rc net a le sl)
  let ?n = "nat (a - 1)"
  have suc: "Suc ?n = nat (a + 1 - 1)" using "1.prems" by simp
  show ?case
  proof (cases "a \<le> maxAttempts rc")
    case False
    then show ?thesis using "1.prems" by (simp add: request_loop.simps)
  next
    case True
    show ?thesis
    proof (cases "client_request this (net a)")
      case (Inr r)
      with True "1.prems" show ?thesis
        by (auto simp: request_loop.simps client_request_def split: sum.splits)
    next
      case (Inl err)
      show ?thesis
      proof (cases "a = maxAttempts rc \<or> \<not> retryable err")
        case True
        with \<open>a \<le> maxAttempts rc\<close> Inl "1.prems" show ?thesis
          by (auto simp: request_loop.simps client_request_def split: sum.splits)
      next
        case False
        let ?r = "request_loop this rc net (a + 1) err (sl @ [calculateDelay this a]) (Suc ?n)"
        have unfold: "request_loop this rc net a le sl ?n = ?r"
          using \<open>a \<le> maxAttempts rc\<close> Inl False by (subst request_loop.simps) auto
        have "j \<noteq> a"
          using False Inl "1.prems"(4,5) by (auto simp: client_request_def)
        then have j: "a + 1 \<le> j" using "1.prems"(2) by simp
        have le: "j \<le> int (calls ?r)" using "1.prems"(3) by (simp only: unfold)
        have "int (calls ?r) = j \<and> outcome ?r = Inl (handleError this e)"
          using "1.hyps" [OF \<open>a \<le> maxAttempts rc\<close> Inl False suc] "1.prems"(1,4,5) j le suc
          by simp
        then show ?thesis by (simp only: unfold)
      qed
    qed
  qed
qed

lemma request_loop_success:
  "1 \<le> a \<Longrightarrow> a \<le> maxAttempts rc \<Longrightarrow>
   \<forall>k. a \<le> k \<and> k < maxAttempts rc \<longrightarrow> (\<exists>e. net k = Inl e \<and> retryable (handleError this e)) \<Longrightarrow>
   net (maxAttempts rc) = Inr r \<Longrightarrow>
   request_loop this rc net a le sl (nat (a - 1))
     = \<lparr>outcome = Inr r, slept = sl @ map (calculateDelay this) [a .. maxAttempts rc - 1],
        calls = nat (maxAttempts rc)\<rparr>"
proof (induction this rc net a le sl "nat (a - 1)" rule: request_loop.induct)
  case (1 this rc net a le sl)
  let ?n = "nat (a - 1)"
  have suc: "Suc ?n = nat (a + 1 - 1)" using "1.prems" by simp
  show ?case
  proof (cases "a = maxAttempts rc")
    case True
    with "1.prems" show ?thesis
      by (subst request_loop.simps) (simp add: client_request_def)
  next
    case False
    with "1.prems" have lt: "a < maxAttempts rc" by simp
    with "1.prems"(3) obtain e where e: "net a = Inl e" "retryable (handleError this e)"
      by auto
    let ?err = "handleError this e"
    have c: "client_request this (net a) = Inl ?err" by (simp add: e client_request_def)
    have nb: "\<not> (a = maxAttempts rc \<or> \<not> retryable ?err)" using False e by simp
    have unfold: "request_loop this rc net a le sl ?n
        = request_loop this rc net (a + 1) ?err (sl @ [calculateDelay this a]) (Suc ?n)"
      using "1.prems"(2) c nb by (subst request_loop.simps) auto
    have rest: "\<forall>k. a + 1 \<le> k \<and> k < maxAttempts rc \<longrightarrow>
        (\<exists>e. net k = Inl e \<and> retryable (handleError this e))"
      using "1.prems"(3) by auto
    have "request_loop this rc net (a + 1) ?err (sl @ [calculateDelay this a]) (Suc ?n)
        = \<lparr>outcome = Inr r,
           slept = (sl @ [calculateDelay this a]) @ map (calculateDelay this) [a + 1 .. maxAttempts rc - 1],
           calls = nat (maxAttempts rc)\<rparr>"
      using "1.hyps" [OF "1.prems"(2) c nb suc] "1.prems"(1,4) lt rest suc by simp
    also have "(sl @ [calculateDelay this a]) @ map (calculateDelay this) [a + 1 .. maxAttempts rc - 1]
        = sl @ map (calculateDelay this) [a .. maxAttempts rc - 1]"
      using lt by (simp add: upto_rec1 [of a])
    finally show ?thesis by (simp only: unfold)
  qed
qed

text \<open>
  The retry loop when every attempt before the last allowed one fails with a retryable
  error and the last allowed one succeeds: the response is returned, the attempts made
  are \<open>maxAttempts\<close> of the merged configuration, and between attempts \<open>k\<close> and \<open>k + 1\<close>
  the loop sleeps \<open>calculateDelay k\<close>, computed from the client's own configuration.
\<close>

lemma request_retries_then_succeeds:
  assumes "1 \<le> maxAttempts (merge_config this custom)"
    and "\<forall>k. 1 \<le> k \<and> k < maxAttempts (merge_config this custom) \<longrightarrow>
      (\<exists>e. net k = Inl e \<and> retryable (handleError this e))"
    and "net (maxAttempts (merge_config this custom)) = Inr r"
  shows "request this custom net
     = \<lparr>outcome = Inr r,
        slept = map (calculateDelay this) [1 .. maxAttempts (merge_config this custom) - 1],
        calls = nat (maxAttempts (merge_config this custom))\<rparr>"
  using request_loop_success [of 1 "merge_config this custom" net this r _ "[]"] assms
  by (simp add: request_def)

lemma calculateDelay_client:
  "map (calculateDelay client_retryConfig) [1, 2, 3, 4, 5, 6]
     = [1000, 2000, 4000, 8000, 16000, 30000]"
  by (simp add: calculateDelay_def client_retryConfig_def retryDelay_def)

text \<open>
  Claim C2. For every attempt number \<open>n \<ge> 1\<close>, \<open>calculateDelay\<close> is the specification's
  \<open>min(base \<times> factor^(n-1), maxDelay)\<close> on the client's configuration; with base 1000,
  factor 2 and cap 30000 the attempts 1 to 6 give 1000, 2000, 4000, 8000, 16000, 30000;
  and in every call of \<open>request\<close> the delay slept before attempt \<open>n + 1\<close> is
  \<open>calculateDelay n\<close>.
\<close>

theorem calculateDelay_formula:
  "(1 \<le> n \<longrightarrow>
      calculateDelay this (int n)
        = delay_spec (baseDelay this) (backoffFactor this) (maxDelay this) n) \<and>
   map (calculateDelay client_retryConfig) [1, 2, 3, 4, 5, 6]
     = [1000, 2000, 4000, 8000, 16000, 30000] \<and>
   slept (request this custom net)
     = map (calculateDelay this) [1 .. int (calls (request this custom net)) - 1]"
proof -
  have "nat (int n - 1) = n - 1" by simp
  then have "calculateDelay this (int n)
      = delay_spec (baseDelay this) (backoffFactor this) (maxDelay this) n"
    by (simp add: calculateDelay_def delay_spec_def)
  then show ?thesis
    using calculateDelay_client request_slept by blast
qed

theorem calculateDelay_formula_witness:
  "(1::nat) \<le> 6 \<and> calculateDelay client_retryConfig (int 6) = 30000 \<and>
   delay_spec 1000 2 30000 6 = 30000 \<and>
   calculateDelay client_retryConfig (int 5) = 16000"
proof -
  have d6: "delay_spec 1000 2 30000 6 = 30000" by (simp add: delay_spec_def)
  have d5: "delay_spec 1000 2 30000 5 = 16000" by (simp add: delay_spec_def)
  have cfg: "baseDelay client_retryConfig = 1000" "backoffFactor client_retryConfig = 2"
    "maxDelay client_retryConfig = 30000"
    by (simp_all add: client_retryConfig_def retryDelay_def)
  from calculateDelay_formula [where n = 6 and this = client_retryConfig and custom = no_override
      and net = unavailable_then_unauthorized] cfg d6
  have a: "calculateDelay client_retryConfig (int 6) = 30000" by simp
  from calculateDelay_formula [where n = 5 and this = client_retryConfig and custom = no_override
      and net = unavailable_then_unauthorized] cfg d5
  have b: "calculateDelay client_retryConfig (int 5) = 16000" by simp
  show ?thesis using a b d6 by simp
qed

text \<open>
  Claim C3. An error carrying an HTTP response is classified retryable exactly when its
  status is one of 408, 429, 500, 502, 503, 504. An error with no response whose request
  was sent is always retryable. In every call of \<open>request\<close>, an attempt that fails with
  a status outside that set is the last attempt made, and its error is what the call
  throws, however many attempts the configuration still allows.
\<close>

theorem error_classification:
  "(ax_response e = Some (st, d) \<longrightarrow>
      retryable (handleError client_retryConfig e) = (st \<in> {408, 429, 500, 502, 503, 504})) \<and>
   (ax_response e = None \<and> ax_request e \<longrightarrow> retryable (handleError this e)) \<and>
   (1 \<le> j \<and> j \<le> int (calls (request client_retryConfig custom net)) \<and> net j = Inl f \<and>
    ax_response f = Some (st', d') \<and> st' \<notin> {408, 429, 500, 502, 503, 504} \<longrightarrow>
      int (calls (request client_retryConfig custom net)) = j \<and>
      outcome (request client_retryConfig custom net) = Inl (handleError client_retryConfig f) \<and>
      err_status (handleError client_retryConfig f) = Some st')"
proof -
  have a: "retryable (handleError client_retryConfig e) = (st \<in> {408, 429, 500, 502, 503, 504})"
    if "ax_response e = Some (st, d)"
    using that by (auto simp: handleError_def isRetryableError_def client_retryConfig_def)
  have b: "retryable (handleError this e)" if "ax_response e = None" "ax_request e"
    using that by (simp add: handleError_def)
  have c: "int (calls (request client_retryConfig custom net)) = j \<and>
      outcome (request client_retryConfig custom net) = Inl (handleError client_retryConfig f) \<and>
      err_status (handleError client_retryConfig f) = Some st'"
    if j: "1 \<le> j" "j \<le> int (calls (request client_retryConfig custom net))"
      and f: "net j = Inl f" "ax_response f = Some (st', d')"
      and st: "st' \<notin> {408, 429, 500, 502, 503, 504}"
  proof -
    have nr: "\<not> retryable (handleError client_retryConfig f)"
      using f(2) st by (auto simp: handleError_def isRetryableError_def client_retryConfig_def)
    have s: "err_status (handleError client_retryConfig f) = Some st'"
      using f(2) by (simp add: handleError_def)
    from request_loop_terminal [of 1 j client_retryConfig "merge_config client_retryConfig custom"
        net _ "[]" f] j f(1) nr
    show ?thesis using s by (simp add: request_def)
  qed
  show ?thesis using a b c by blast
qed

lemma unauthorized_run:
  "request client_retryConfig no_override unavailable_then_unauthorized
     = \<lparr>outcome = Inl (handleError client_retryConfig (http_error 401)), slept = [1000],
        calls = 2\<rparr>"
  by (simp add: request_def request_loop.simps merge_config_def no_override_def
      client_retryConfig_def retryAttempts_def retryDelay_def unavailable_then_unauthorized_def
      client_request_def handleError_def http_error_def isRetryableError_def calculateDelay_def)

theorem error_classification_witness:
  "retryable (handleError client_retryConfig (http_error 503)) \<and>
   calls (request client_retryConfig no_override unavailable_then_unauthorized) = 2 \<and>
   outcome (request client_retryConfig no_override unavailable_then_unauthorized)
     = Inl (handleError client_retryConfig (http_error 401)) \<and>
   err_status (handleError client_retryConfig (http_error 401)) = Some 401 \<and>
   slept (request client_retryConfig no_override unavailable_then_unauthorized) = [1000]"
proof -
  have r503: "ax_response (http_error 503) = Some (503, None)"
    by (simp add: http_error_def)
  have r401: "ax_response (http_error 401) = Some (401, None)"
    by (simp add: http_error_def)
  have n2: "unavailable_then_unauthorized 2 = Inl (http_error 401)"
    by (simp add: unavailable_then_unauthorized_def)
  have c2: "calls (request client_retryConfig no_override unavailable_then_unauthorized) = 2"
    by (simp add: unauthorized_run)
  have sl: "slept (request client_retryConfig no_override unavailable_then_unauthorized) = [1000]"
    by (simp add: unauthorized_run)
  note t = error_classification [where e = "http_error 503" and st = 503 and d = None
      and this = client_retryConfig and j = 2 and custom = no_override
      and net = unavailable_then_unauthorized and f = "http_error 401" and st' = 401
      and d' = None]
  from t r503
  have a: "retryable (handleError client_retryConfig (http_error 503))" by simp
  from t r401 n2 c2
  have b: "outcome (request client_retryConfig no_override unavailable_then_unauthorized)
      = Inl (handleError client_retryConfig (http_error 401)) \<and>
    err_status (handleError client_retryConfig (http_error 401)) = Some 401"
    by simp
  show ?thesis using a b c2 sl by blast
qed

text \<open>
  Claim C1 at a per-call retry configuration. \<open>request\<close> merges \<open>customRetryConfig\<close>
  into the configuration it runs with, and takes \<open>maxAttempts\<close> from the merged one, but
  \<open>calculateDelay\<close> reads \<open>this.retryConfig\<close>. With the override \<open>{baseDelay: 500}\<close>,
  two 503 failures and then a success, the call returns the response after 3 attempts and
  sleeps 1000 and 2000, where the formula on the configuration of the call gives 500 and
  1000.
\<close>

theorem request_override_delay_ignored:
  "outcome (request client_retryConfig (no_override\<lparr>o_baseDelay := Some 500\<rparr>)
      (fails_then_ok 503 3 ''ok'')) = Inr ''ok'' \<and>
   calls (request client_retryConfig (no_override\<lparr>o_baseDelay := Some 500\<rparr>)
      (fails_then_ok 503 3 ''ok'')) = 3 \<and>
   slept (request client_retryConfig (no_override\<lparr>o_baseDelay := Some 500\<rparr>)
      (fails_then_ok 503 3 ''ok'')) = [1000, 2000] \<and>
   baseDelay (merge_config client_retryConfig (no_override\<lparr>o_baseDelay := Some 500\<rparr>)) = 500 \<and>
   map (calculateDelay (merge_config client_retryConfig (no_override\<lparr>o_baseDelay := Some 500\<rparr>)))
      [1, 2] = [500, 1000]"
  by (simp add: request_def request_loop.simps merge_config_def no_override_def
      client_retryConfig_def retryAttempts_def retryDelay_def fails_then_ok_def
      client_request_def handleError_def http_error_def isRetryableError_def calculateDelay_def)

section \<open>Properties of the connection manager\<close>

lemma processMessageQueue_connected:
  "isConnected m \<Longrightarrow>
   processMessageQueue m = m\<lparr>messageQueue := [], emitted := emitted m @ messageQueue m\<rparr>"
proof (induction "messageQueue m" arbitrary: m)
  case Nil
  then show ?case by (subst processMessageQueue.simps) simp
next
  case (Cons message rest)
  let ?m1 = "m\<lparr>messageQueue := rest, emitted := emitted m @ [message]\<rparr>"
  have q: "messageQueue m = message # rest" using Cons.hyps(2) by simp
  have c1: "isConnected ?m1" using Cons.prems by (simp add: isConnected_def)
  have "processMessageQueue m = processMessageQueue ?m1"
    using Cons.prems q by (subst processMessageQueue.simps) simp
  also have "\<dots> = ?m1\<lparr>messageQueue := [], emitted := emitted ?m1 @ messageQueue ?m1\<rparr>"
    by (rule Cons.hyps(1) [OF _ c1]) simp
  finally show ?case by (simp add: q)
qed

lemma send_disconnected:
  "\<not> isConnected m \<Longrightarrow>
   messageQueue (send en event data ts m) = messageQueue m @ [envelope (event, data, ts)] \<and>
   emitted (send en event data ts m) = emitted m \<and>
   \<not> isConnected (send en event data ts m)"
  by (simp add: send_def connect_def isConnected_def envelope_def Let_def)

lemma send_waiting:
  "\<not> isConnected m \<Longrightarrow> en \<Longrightarrow> isConnecting m \<longrightarrow> handler_waiting m \<Longrightarrow>
   handler_waiting (send en event data ts m) \<and> isConnecting (send en event data ts m)"
  by (simp add: send_def connect_def isConnected_def handler_waiting_def Let_def)

lemma sends_disconnected:
  "\<not> isConnected m \<Longrightarrow>
   messageQueue (sends en cs m) = messageQueue m @ map envelope cs \<and>
   emitted (sends en cs m) = emitted m \<and>
   \<not> isConnected (sends en cs m)"
proof (induction cs arbitrary: m)
  case Nil
  then show ?case by simp
next
  case (Cons c cs)
  obtain event data ts where c: "c = (event, data, ts)" by (cases c) auto
  from send_disconnected [OF Cons.prems, of en event data ts]
  have s: "messageQueue (send en event data ts m) = messageQueue m @ [envelope c]"
    "emitted (send en event data ts m) = emitted m"
    "\<not> isConnected (send en event data ts m)"
    by (simp_all add: c)
  from Cons.IH [OF s(3)] s(1,2) show ?case by (simp add: c)
qed

lemma sends_waiting:
  "\<not> isConnected m \<Longrightarrow> en \<Longrightarrow> isConnecting m \<longrightarrow> handler_waiting m \<Longrightarrow> cs \<noteq> [] \<or> handler_waiting m \<Longrightarrow>
   handler_waiting (sends en cs m)"
proof (induction cs arbitrary: m)
  case Nil
  then show ?case by simp
next
  case (Cons c cs)
  obtain event data ts where c: "c = (event, data, ts)" by (cases c) auto
  let ?m1 = "send en event data ts m"
  from send_waiting [OF Cons.prems(1,2,3), of event data ts]
  have w: "handler_waiting ?m1" "isConnecting ?m1" by simp_all
  from send_disconnected [OF Cons.prems(1), of en event data ts]
  have d: "\<not> isConnected ?m1" by simp
  have "handler_waiting (sends en cs ?m1)"
    by (rule Cons.IH [OF d Cons.prems(2)]) (simp_all add: w)
  then show ?case by (simp add: c)
qed

lemma on_connect_flush:
  "handler_waiting m \<Longrightarrow>
   emitted (on_connect m) = emitted m @ messageQueue m \<and> messageQueue (on_connect m) = [] \<and>
   isConnected (on_connect m) \<and> \<not> handler_waiting (on_connect m)"
  by (auto simp: on_connect_def handler_waiting_def isConnected_def
      processMessageQueue_connected split: option.splits)

lemma on_connect_again:
  "\<not> handler_waiting m \<Longrightarrow>
   emitted (on_connect m) = emitted m \<and> messageQueue (on_connect m) = messageQueue m"
  by (auto simp: on_connect_def handler_waiting_def split: option.splits)

lemma isConnecting_processMessageQueue:
  "isConnecting (processMessageQueue m) = isConnecting m"
proof (induction "messageQueue m" arbitrary: m)
  case Nil
  then show ?case by (subst processMessageQueue.simps) simp
next
  case (Cons message rest)
  let ?m1 = "m\<lparr>messageQueue := rest, emitted := emitted m @ [message]\<rparr>"
  have q: "messageQueue m = message # rest" using Cons.hyps(2) by simp
  show ?case
  proof (cases "isConnected m")
    case True
    then have "processMessageQueue m = processMessageQueue ?m1"
      using q by (subst processMessageQueue.simps) simp
    moreover have "isConnecting (processMessageQueue ?m1) = isConnecting ?m1"
      by (rule Cons.hyps(1)) simp
    ultimately show ?thesis by simp
  next
    case False
    then show ?thesis using q by (subst processMessageQueue.simps) simp
  qed
qed

lemma ws_reachable_waiting:
  "ws_reachable en m \<Longrightarrow> isConnecting m \<longrightarrow> handler_waiting m"
proof (induction rule: ws_reachable.induct)
  case ws_init
  then show ?case by (simp add: initial_manager_def)
next
  case (ws_next m ev)
  then show ?case
    by (cases ev)
      (auto simp: send_def connect_def disconnect_def on_connect_def on_connect_error_def
        on_disconnect_def handler_waiting_def isConnected_def Let_def
        isConnecting_processMessageQueue
        split: option.splits if_splits)
qed

text \<open>
  Claim C4. From any reachable state of the manager whose socket is not connected, a
  sequence of \<open>send\<close> calls appends its messages to the outbound queue in call order and
  transmits nothing. When WebSocket use is enabled and at least one message was sent, the
  next \<open>connect\<close> event of the socket transmits the whole queue, the older entries
  first, each message once, and leaves the queue empty; a further \<open>connect\<close> event
  transmits nothing again.
\<close>

theorem queued_messages_sent_once_in_order:
  assumes "ws_reachable enableWebSocket m"
    and "\<not> isConnected m"
  shows "messageQueue (sends enableWebSocket cs m) = messageQueue m @ map envelope cs \<and>
    emitted (sends enableWebSocket cs m) = emitted m \<and>
    (enableWebSocket \<and> cs \<noteq> [] \<longrightarrow>
       emitted (on_connect (sends enableWebSocket cs m))
         = emitted m @ messageQueue m @ map envelope cs \<and>
       messageQueue (on_connect (sends enableWebSocket cs m)) = [] \<and>
       emitted (on_connect (on_connect (sends enableWebSocket cs m)))
         = emitted m @ messageQueue m @ map envelope cs)"
proof -
  let ?m' = "sends enableWebSocket cs m"
  from sends_disconnected [OF assms(2), of enableWebSocket cs]
  have q: "messageQueue ?m' = messageQueue m @ map envelope cs" "emitted ?m' = emitted m"
    by simp_all
  have inv: "isConnecting m \<longrightarrow> handler_waiting m"
    using assms(1) by (rule ws_reachable_waiting)
  have flush: "emitted (on_connect ?m') = emitted m @ messageQueue m @ map envelope cs \<and>
       messageQueue (on_connect ?m') = [] \<and>
       emitted (on_connect (on_connect ?m')) = emitted m @ messageQueue m @ map envelope cs"
    if en: "enableWebSocket" and ne: "cs \<noteq> []"
  proof -
    have w: "handler_waiting ?m'"
      by (rule sends_waiting [OF assms(2) en inv]) (simp add: ne)
    from on_connect_flush [OF w]
    have f: "emitted (on_connect ?m') = emitted ?m' @ messageQueue ?m'"
      "messageQueue (on_connect ?m') = []" "\<not> handler_waiting (on_connect ?m')"
      by simp_all
    from on_connect_again [OF f(3)]
    have a: "emitted (on_connect (on_connect ?m')) = emitted (on_connect ?m')"
      by simp
    show ?thesis using q f(1,2) a by simp
  qed
  show ?thesis using q flush by blast
qed

theorem queued_messages_witness:
  "\<not> isConnected initial_manager \<and>
   messageQueue (sends True [(''ping'', JNum 1, ''t1''), (''pong'', JNum 2, ''t2'')] initial_manager)
     = [\<lparr>msg_type = ''ping'', msg_data = JNum 1, msg_timestamp = ''t1''\<rparr>,
        \<lparr>msg_type = ''pong'', msg_data = JNum 2, msg_timestamp = ''t2''\<rparr>] \<and>
   emitted (sends True [(''ping'', JNum 1, ''t1''), (''pong'', JNum 2, ''t2'')] initial_manager) = [] \<and>
   emitted (on_connect
     (sends True [(''ping'', JNum 1, ''t1''), (''pong'', JNum 2, ''t2'')] initial_manager))
     = [\<lparr>msg_type = ''ping'', msg_data = JNum 1, msg_timestamp = ''t1''\<rparr>,
        \<lparr>msg_type = ''pong'', msg_data = JNum 2, msg_timestamp = ''t2''\<rparr>] \<and>
   messageQueue (on_connect
     (sends True [(''ping'', JNum 1, ''t1''), (''pong'', JNum 2, ''t2'')] initial_manager)) = []"
proof -
  have h0: "ws_reachable True initial_manager" by (rule ws_init)
  have h1: "\<not> isConnected initial_manager"
    by (simp add: initial_manager_def isConnected_def)
  have q0: "messageQueue initial_manager = []" "emitted initial_manager = []"
    by (simp_all add: initial_manager_def)
  from queued_messages_sent_once_in_order [OF h0 h1,
      of "[(''ping'', JNum 1, ''t1''), (''pong'', JNum 2, ''t2'')]"] q0 h1
  show ?thesis by (simp add: envelope_def)
qed

end
